theory Spec2Isabelle
  imports Complex_Main "HOL-Library.Product_Lexorder"
begin

section \<open>Chou-Fasman secondary structure prediction\<close>

text \<open>
  A shallow embedding of \<^verbatim>\<open>chou_fasman_predictor.py\<close>. Indices are Python's unbounded
  integers (\<^typ>\<open>int\<close>). Propensities are Python floats; the scanner and the extender only
  add them and compare them, so these functions are written over any type that has
  \<open>0\<close>, \<open>1\<close>, \<open>+\<close>, \<open>\<le>\<close> and \<open><\<close>, with no law assumed about them: what is proved
  there holds for every arithmetic, rounded or exact. The Resolver also divides a float by
  an int, and is written the same way, over any type with \<open>/\<close> and with the conversion of an
  int to a float as a parameter. The tables and the thresholds are the decimal literals of
  the source (\<^typ>\<open>rat\<close>); the pipeline takes as a parameter \<open>lit\<close> the float that each literal
  is read as, and nothing is assumed about it either.
\<close>

subsection \<open>Python lists\<close>

datatype error = IndexError

text \<open>\<^verbatim>\<open>xs[i]\<close>: a negative index counts from the end, an index out of range raises.\<close>

definition py_get :: "'a list \<Rightarrow> int \<Rightarrow> error + 'a" where
  "py_get xs i =
     (if 0 \<le> i \<and> i < int (length xs) then Inr (xs ! nat i)
      else if i < 0 \<and> - int (length xs) \<le> i then Inr (xs ! nat (int (length xs) + i))
      else Inl IndexError)"

text \<open>\<^verbatim>\<open>xs[i:j]\<close>: both bounds are taken from the end when negative, then clamped; never raises.\<close>

definition py_slice :: "'a list \<Rightarrow> int \<Rightarrow> int \<Rightarrow> 'a list" where
  "py_slice xs i j =
     (let n = int (length xs);
          lo = (if i < 0 then max 0 (n + i) else min n i);
          hi = (if j < 0 then max 0 (n + j) else min n j)
      in take (nat (hi - lo)) (drop (nat lo) xs))"

text \<open>\<^verbatim>\<open>sum(xs)\<close>: starts from 0 and adds from the left.\<close>

definition py_sum :: "'a::{zero,plus} list \<Rightarrow> 'a" where
  "py_sum xs = foldl (+) 0 xs"

text \<open>\<^verbatim>\<open>range(a, b)\<close>, empty when \<open>b \<le> a\<close>.\<close>

definition py_range :: "int \<Rightarrow> int \<Rightarrow> int list" where
  "py_range a b = [a..b - 1]"

subsection \<open>Window Scanner\<close>

text \<open>\<^verbatim>\<open>sum(v > 1.0 for v in vals) >= min_count\<close>\<close>

definition window_has_min_over_1 :: "'a::{one,ord} list \<Rightarrow> int \<Rightarrow> bool" where
  "window_has_min_over_1 vals min_count \<longleftrightarrow> min_count \<le> int (length (filter (\<lambda>v. 1 < v) vals))"

subsection \<open>Segment Extender\<close>

text \<open>
  One round of the \<^verbatim>\<open>while changed\<close> loop of \<^verbatim>\<open>extend_segment\<close>, in its two halves. Each
  returns the boundary it may have moved and whether it moved it; reading the propensity
  list out of range raises.
\<close>

definition extend_left ::
  "int \<Rightarrow> int \<Rightarrow> 'a::{zero,plus,ord} list \<Rightarrow> 'a \<Rightarrow> error + (int \<times> bool)" where
  "extend_left start en prop_list threshold_sum =
     (if start > 0 \<and> en - start + 1 \<ge> 3 then
        (case py_get prop_list (start - 1) of
           Inl err \<Rightarrow> Inl err
         | Inr x \<Rightarrow>
             (let w_left = [x] @ py_slice prop_list start (start + 3)
              in if threshold_sum \<le> py_sum w_left then Inr (start - 1, True)
                 else Inr (start, False)))
      else Inr (start, False))"

definition extend_right ::
  "int \<Rightarrow> int \<Rightarrow> 'a::{zero,plus,ord} list \<Rightarrow> 'a \<Rightarrow> int \<Rightarrow> error + (int \<times> bool)" where
  "extend_right start en prop_list threshold_sum seq_len =
     (if en < seq_len - 1 \<and> en - start + 1 \<ge> 3 then
        (case py_get prop_list (en + 1) of
           Inl err \<Rightarrow> Inl err
         | Inr x \<Rightarrow>
             (let w_right = py_slice prop_list (en - 2) (en + 1) @ [x]
              in if threshold_sum \<le> py_sum w_right then Inr (en + 1, True)
                 else Inr (en, False)))
      else Inr (en, False))"

definition extend_round ::
  "int \<Rightarrow> int \<Rightarrow> 'a::{zero,plus,ord} list \<Rightarrow> 'a \<Rightarrow> int \<Rightarrow> error + (int \<times> int \<times> bool)" where
  "extend_round start en prop_list threshold_sum seq_len =
     (case extend_left start en prop_list threshold_sum of
        Inl err \<Rightarrow> Inl err
      | Inr (start', c1) \<Rightarrow>
          (case extend_right start' en prop_list threshold_sum seq_len of
             Inl err \<Rightarrow> Inl err
           | Inr (en', c2) \<Rightarrow> Inr (start', en', c1 \<or> c2)))"

text \<open>
  The loop: rounds are repeated while the last one moved a boundary. A round that goes on
  moved \<open>start\<close> down (only when \<open>start > 0\<close>) or \<open>en\<close> up (only when \<open>en < seq_len - 1\<close>),
  which is the measure of the termination proof.
\<close>

function extend_segment ::
  "int \<Rightarrow> int \<Rightarrow> 'a::{zero,plus,ord} list \<Rightarrow> 'a \<Rightarrow> int \<Rightarrow> error + (int \<times> int)" where
  "extend_segment start en prop_list threshold_sum seq_len =
     (case extend_round start en prop_list threshold_sum seq_len of
        Inl err \<Rightarrow> Inl err
      | Inr (start', en', changed) \<Rightarrow>
          if changed then extend_segment start' en' prop_list threshold_sum seq_len
          else Inr (start', en'))"
  by pat_completeness auto
termination
  by (relation "measure (\<lambda>(start, en, pl, th, n). nat start + nat (n - 1 - en))")
     (auto simp: extend_round_def extend_left_def extend_right_def Let_def
           split: sum.splits if_splits)

declare extend_segment.simps [simp del]

text \<open>
  The same loop with no termination argument: \<open>None\<close> stands for a loop that never
  returns.
\<close>

partial_function (option) extend_while ::
  "int \<Rightarrow> int \<Rightarrow> 'a::{zero,plus,ord} list \<Rightarrow> 'a \<Rightarrow> int \<Rightarrow> (error + (int \<times> int)) option" where
  "extend_while start en prop_list threshold_sum seq_len =
     (case extend_round start en prop_list threshold_sum seq_len of
        Inl err \<Rightarrow> Some (Inl err)
      | Inr (start', en', changed) \<Rightarrow>
          if changed then extend_while start' en' prop_list threshold_sum seq_len
          else Some (Inr (start', en')))"

text \<open>
  The Extender in the words of the specification, for a segment inside the sequence: the
  left test, the right test, and a round that moves each boundary whose test passes.
\<close>

definition grow_left :: "'a::{zero,plus,ord} list \<Rightarrow> 'a \<Rightarrow> int \<Rightarrow> int \<Rightarrow> bool" where
  "grow_left pl th start en \<longleftrightarrow>
     start > 0 \<and> en - start + 1 \<ge> 3 \<and>
     th \<le> py_sum [pl ! nat (start - 1), pl ! nat start, pl ! nat (start + 1), pl ! nat (start + 2)]"

definition grow_right :: "'a::{zero,plus,ord} list \<Rightarrow> 'a \<Rightarrow> int \<Rightarrow> int \<Rightarrow> int \<Rightarrow> bool" where
  "grow_right pl th n start en \<longleftrightarrow>
     en < n - 1 \<and> en - start + 1 \<ge> 3 \<and>
     th \<le> py_sum [pl ! nat (en - 2), pl ! nat (en - 1), pl ! nat en, pl ! nat (en + 1)]"

definition grow_round :: "'a::{zero,plus,ord} list \<Rightarrow> 'a \<Rightarrow> int \<Rightarrow> int \<times> int \<Rightarrow> int \<times> int" where
  "grow_round pl th n seg =
     (case seg of (start, en) \<Rightarrow>
        (if grow_left pl th start en then start - 1 else start,
         if grow_right pl th n start en then en + 1 else en))"

definition in_bounds :: "int \<Rightarrow> int \<times> int \<Rightarrow> bool" where
  "in_bounds n seg \<longleftrightarrow> (case seg of (start, en) \<Rightarrow> 0 \<le> start \<and> start \<le> en \<and> en \<le> n - 1)"

subsection \<open>Segment Merger\<close>

text \<open>
  The body of the \<^verbatim>\<open>for\<close> loop of \<^verbatim>\<open>merge_segments\<close>: \<^verbatim>\<open>merged[-1]\<close> is replaced or a
  new entry is appended. \<^verbatim>\<open>merged\<close> is never empty there.
\<close>

definition merge_step :: "(int \<times> int) list \<Rightarrow> int \<times> int \<Rightarrow> (int \<times> int) list" where
  "merge_step merged seg =
     (case seg of (s, e) \<Rightarrow>
        (case last merged of (ms, me) \<Rightarrow>
           if s \<le> me + 1 then butlast merged @ [(ms, max me e)]
           else merged @ [(s, e)]))"

text \<open>\<^verbatim>\<open>sorted\<close> orders the pairs by start, then by end.\<close>

definition merge_segments :: "(int \<times> int) list \<Rightarrow> (int \<times> int) list" where
  "merge_segments segments =
     (if segments = [] then []
      else (let segments' = sort segments
            in foldl merge_step [hd segments'] (tl segments')))"

text \<open>
  The Merger in the words of the specification: a fold, left to right, that keeps the
  current accumulator apart from the entries already closed. A segment whose start is at
  most the accumulator's end plus one extends the accumulator's end to the larger of the
  two ends; any other segment closes the accumulator and becomes the next one.
\<close>

fun merge_acc :: "int \<times> int \<Rightarrow> (int \<times> int) list \<Rightarrow> (int \<times> int) list" where
  "merge_acc acc [] = [acc]"
| "merge_acc acc (seg # rest) =
     (if fst seg \<le> snd acc + 1 then merge_acc (fst acc, max (snd acc) (snd seg)) rest
      else acc # merge_acc seg rest)"

subsection \<open>Propensity tables\<close>

definition P_ALPHA :: "(char \<times> rat) list" where
  "P_ALPHA =
     [(CHR ''E'', 1.53), (CHR ''A'', 1.45), (CHR ''L'', 1.34), (CHR ''H'', 1.24),
      (CHR ''M'', 1.20), (CHR ''Q'', 1.17), (CHR ''W'', 1.14), (CHR ''V'', 1.14),
      (CHR ''F'', 1.12), (CHR ''K'', 1.07), (CHR ''I'', 1.00), (CHR ''D'', 0.98),
      (CHR ''T'', 0.82), (CHR ''S'', 0.79), (CHR ''R'', 0.79), (CHR ''C'', 0.77),
      (CHR ''N'', 0.73), (CHR ''Y'', 0.61), (CHR ''P'', 0.59), (CHR ''G'', 0.53)]"

definition P_BETA :: "(char \<times> rat) list" where
  "P_BETA =
     [(CHR ''M'', 1.67), (CHR ''V'', 1.65), (CHR ''I'', 1.60), (CHR ''C'', 1.30),
      (CHR ''Y'', 1.29), (CHR ''F'', 1.28), (CHR ''Q'', 1.23), (CHR ''L'', 1.22),
      (CHR ''T'', 1.20), (CHR ''W'', 1.19), (CHR ''A'', 0.97), (CHR ''R'', 0.90),
      (CHR ''G'', 0.81), (CHR ''D'', 0.80), (CHR ''K'', 0.74), (CHR ''S'', 0.72),
      (CHR ''H'', 0.71), (CHR ''N'', 0.65), (CHR ''P'', 0.62), (CHR ''E'', 0.26)]"

text \<open>\<^verbatim>\<open>P_ALPHA.get(res, 0.0)\<close> and \<^verbatim>\<open>P_BETA.get(res, 0.0)\<close>\<close>

definition pa :: "char \<Rightarrow> rat" where
  "pa res = (case map_of P_ALPHA res of Some v \<Rightarrow> v | None \<Rightarrow> 0.0)"

definition pb :: "char \<Rightarrow> rat" where
  "pb res = (case map_of P_BETA res of Some v \<Rightarrow> v | None \<Rightarrow> 0.0)"

definition Palpha_list :: "string \<Rightarrow> rat list" where
  "Palpha_list SEQ = map pa SEQ"

definition Pbeta_list :: "string \<Rightarrow> rat list" where
  "Pbeta_list SEQ = map pb SEQ"

subsection \<open>Nucleation loops\<close>

text \<open>
  The start indices at which the body of a nucleation loop is entered:
  \<^verbatim>\<open>for i in range(0, N - w + 1): if window_has_min_over_1(prop_list[i:i + w], m): ...\<close>
\<close>

definition seed_starts :: "'a::{one,ord} list \<Rightarrow> int \<Rightarrow> int \<Rightarrow> int \<Rightarrow> int list" where
  "seed_starts prop_list w m N =
     filter (\<lambda>i. window_has_min_over_1 (py_slice prop_list i (i + w)) m) (py_range 0 (N - w + 1))"

text \<open>Residue index \<open>p\<close> lies inside a window that the scan takes as a seed.\<close>

definition in_seed_window :: "'a::{one,ord} list \<Rightarrow> int \<Rightarrow> int \<Rightarrow> int \<Rightarrow> int \<Rightarrow> bool" where
  "in_seed_window prop_list w m N p \<longleftrightarrow>
     list_ex (\<lambda>i. i \<le> p \<and> p < i + w) (seed_starts prop_list w m N)"

text \<open>A loop whose body may raise: the first error ends it.\<close>

fun map_err :: "('a \<Rightarrow> error + 'b) \<Rightarrow> 'a list \<Rightarrow> error + 'b list" where
  "map_err f [] = Inr []"
| "map_err f (x # xs) =
     (case f x of
        Inl err \<Rightarrow> Inl err
      | Inr y \<Rightarrow> (case map_err f xs of Inl err \<Rightarrow> Inl err | Inr ys \<Rightarrow> Inr (y # ys)))"

text \<open>Each seed window \<open>[i, i + w - 1]\<close> is extended and appended, in scan order.\<close>

definition nucleate ::
  "'a::{zero,one,plus,ord} list \<Rightarrow> int \<Rightarrow> int \<Rightarrow> 'a \<Rightarrow> int \<Rightarrow> error + (int \<times> int) list" where
  "nucleate prop_list w m threshold_sum N =
     map_err (\<lambda>i. extend_segment i (i + w - 1) prop_list threshold_sum N)
       (seed_starts prop_list w m N)"

text \<open>
  The helix and the strand loops, followed by the merge. \<open>lit\<close> reads a decimal literal of
  the source (a table entry, or the threshold) as a float.
\<close>

definition helix_segments ::
  "(rat \<Rightarrow> 'a::{zero,one,plus,ord}) \<Rightarrow> string \<Rightarrow> error + (int \<times> int) list" where
  "helix_segments lit SEQ =
     (case nucleate (map lit (Palpha_list SEQ)) 6 4 (lit 4.0) (int (length SEQ)) of
        Inl err \<Rightarrow> Inl err
      | Inr segs \<Rightarrow> Inr (merge_segments segs))"

definition strand_segments ::
  "(rat \<Rightarrow> 'a::{zero,one,plus,ord}) \<Rightarrow> string \<Rightarrow> error + (int \<times> int) list" where
  "strand_segments lit SEQ =
     (case nucleate (map lit (Pbeta_list SEQ)) 5 3 (lit 4.0000001) (int (length SEQ)) of
        Inl err \<Rightarrow> Inl err
      | Inr segs \<Rightarrow> Inr (merge_segments segs))"

subsection \<open>Conflict Resolver\<close>

text \<open>
  The label arrays \<^verbatim>\<open>labels_H\<close> and \<^verbatim>\<open>labels_S\<close> have length \<open>N\<close>: they are created as
  \<^verbatim>\<open>['-'] * N\<close> and only written by index. The indices of this stage start at 0 and only
  grow, so they are natural numbers here.

  \<^verbatim>\<open>conflict_mask = [(labels_H[i] == 'H' and labels_S[i] == 'S') for i in range(N)]\<close>
\<close>

definition conflict_mask :: "nat \<Rightarrow> string \<Rightarrow> string \<Rightarrow> bool list" where
  "conflict_mask N labels_H labels_S =
     map (\<lambda>i. labels_H ! i = CHR ''H'' \<and> labels_S ! i = CHR ''S'') [0..<N]"

text \<open>The inner loop \<^verbatim>\<open>while j + 1 < N and conflict_mask[j + 1]: j += 1\<close>.\<close>

function region_end :: "bool list \<Rightarrow> nat \<Rightarrow> nat \<Rightarrow> nat" where
  "region_end cmask N j =
     (if j + 1 < N \<and> cmask ! (j + 1) then region_end cmask N (j + 1) else j)"
  by pat_completeness auto
termination
  by (relation "measure (\<lambda>(cmask, N, j). N - j)") auto

declare region_end.simps [simp del]

text \<open>The outer loop \<^verbatim>\<open>while i < N\<close>, which appends the runs of the mask it meets.\<close>

function scan_regions :: "bool list \<Rightarrow> nat \<Rightarrow> nat \<Rightarrow> (nat \<times> nat) list \<Rightarrow> (nat \<times> nat) list" where
  "scan_regions cmask N i regions =
     (if i < N then
        (if cmask ! i then
           (let j = region_end cmask N i
            in scan_regions cmask N (j + 1) (regions @ [(i, j)]))
         else scan_regions cmask N (i + 1) regions)
      else regions)"
  by pat_completeness auto
termination
proof (relation "measure (\<lambda>(cmask, N, i, regions). N - i)")
  show "wf (measure (\<lambda>(cmask, N, i, regions). N - i))" by simp
next
  fix cmask :: "bool list" and N i :: nat and regions :: "(nat \<times> nat) list" and j
  assume "i < N" "cmask ! i" "j = region_end cmask N i"
  moreover have "i \<le> region_end cmask N i"
    by (induction cmask N i rule: region_end.induct)
       (subst region_end.simps, auto)
  ultimately show "((cmask, N, j + 1, regions @ [(i, j)]),
                    (cmask, N, i, regions))
                   \<in> measure (\<lambda>(cmask, N, i, regions). N - i)"
    by simp
next
  fix cmask :: "bool list" and N i :: nat and regions :: "(nat \<times> nat) list"
  assume "i < N"
  then show "((cmask, N, i + 1, regions), (cmask, N, i, regions))
             \<in> measure (\<lambda>(cmask, N, i, regions). N - i)"
    by simp
qed

declare scan_regions.simps [simp del]

definition conflict_regions :: "bool list \<Rightarrow> nat \<Rightarrow> (nat \<times> nat) list" where
  "conflict_regions cmask N = scan_regions cmask N 0 []"

text \<open>
  The first pass over the labels: helix where \<^verbatim>\<open>labels_H\<close> says so, then strand where
  \<^verbatim>\<open>labels_S\<close> says so and the entry is still unassigned, the marker \<open>X\<close> where both do.
\<close>

definition mark_overlap :: "nat \<Rightarrow> string \<Rightarrow> string \<Rightarrow> string" where
  "mark_overlap N labels_H labels_S =
     map (\<lambda>i. let f = (if labels_H ! i = CHR ''H'' then CHR ''H'' else CHR ''-'')
               in if labels_S ! i = CHR ''S''
                  then (if f = CHR ''-'' then CHR ''S'' else CHR ''X'')
                  else f)
       [0..<N]"

text \<open>
  The body of the loop over the conflict regions: the chosen label and the two averages,
  an entry of \<^verbatim>\<open>resolved_choices\<close>. In \<^verbatim>\<open>pa_sum / length\<close> Python converts the int
  \<^verbatim>\<open>length\<close> to a float and divides; \<open>to_float\<close> is that conversion.
\<close>

definition resolve_region ::
  "(int \<Rightarrow> 'a) \<Rightarrow> 'a::{zero,plus,ord,inverse} list \<Rightarrow> 'a list \<Rightarrow> nat \<Rightarrow> nat \<Rightarrow> char \<times> 'a \<times> 'a" where
  "resolve_region to_float Pa Pb s e =
     (let pa_sum = py_sum (py_slice Pa (int s) (int e + 1));
          pb_sum = py_sum (py_slice Pb (int s) (int e + 1));
          len = int e - int s + 1;
          avg_pa = pa_sum / to_float len;
          avg_pb = pb_sum / to_float len;
          chosen = (if avg_pb > avg_pa then CHR ''S'' else CHR ''H'')
      in (chosen, avg_pa, avg_pb))"

text \<open>
  \<^verbatim>\<open>for k in range(s, e + 1): final_labels[k] = chosen\<close>. The regions come from the scan,
  which keeps them inside \<open>[0, N - 1]\<close>, so no write is out of range.
\<close>

definition overwrite :: "string \<Rightarrow> nat \<Rightarrow> nat \<Rightarrow> char \<Rightarrow> string" where
  "overwrite final_labels s e chosen = fold (\<lambda>k fl. fl[k := chosen]) [s..<e + 1] final_labels"

definition resolve_loop ::
  "(int \<Rightarrow> 'a) \<Rightarrow> 'a::{zero,plus,ord,inverse} list \<Rightarrow> 'a list \<Rightarrow> (nat \<times> nat) list \<Rightarrow> string \<Rightarrow> string" where
  "resolve_loop to_float Pa Pb regions final_labels =
     foldl (\<lambda>fl (s, e). overwrite fl s e (fst (resolve_region to_float Pa Pb s e)))
       final_labels regions"

definition resolved_choices ::
  "(int \<Rightarrow> 'a) \<Rightarrow> 'a::{zero,plus,ord,inverse} list \<Rightarrow> 'a list \<Rightarrow> (nat \<times> nat) list
     \<Rightarrow> (nat \<times> nat \<times> char \<times> 'a \<times> 'a) list" where
  "resolved_choices to_float Pa Pb regions =
     map (\<lambda>(s, e). (s, e, resolve_region to_float Pa Pb s e)) regions"

text \<open>The last loop: a marker that is still there becomes helix.\<close>

definition clean_residual :: "string \<Rightarrow> string" where
  "clean_residual final_labels = map (\<lambda>c. if c = CHR ''X'' then CHR ''H'' else c) final_labels"

definition resolved_labels ::
  "(int \<Rightarrow> 'a) \<Rightarrow> nat \<Rightarrow> 'a::{zero,plus,ord,inverse} list \<Rightarrow> 'a list \<Rightarrow> string \<Rightarrow> string \<Rightarrow> string" where
  "resolved_labels to_float N Pa Pb labels_H labels_S =
     resolve_loop to_float Pa Pb (conflict_regions (conflict_mask N labels_H labels_S) N)
       (mark_overlap N labels_H labels_S)"

definition final_labels ::
  "(int \<Rightarrow> 'a) \<Rightarrow> nat \<Rightarrow> 'a::{zero,plus,ord,inverse} list \<Rightarrow> 'a list \<Rightarrow> string \<Rightarrow> string \<Rightarrow> string" where
  "final_labels to_float N Pa Pb labels_H labels_S =
     clean_residual (resolved_labels to_float N Pa Pb labels_H labels_S)"

text \<open>
  In the words of the specification: a Conflict Region is a maximal run of residues that
  both label arrays claim, and the average of a propensity list over \<open>s..e\<close> is the sum of
  its entries at the indices \<open>s, s + 1, \<dots>, e\<close> divided by their number.
\<close>

definition max_run :: "bool list \<Rightarrow> nat \<Rightarrow> nat \<Rightarrow> nat \<Rightarrow> bool" where
  "max_run cmask N s e \<longleftrightarrow>
     s \<le> e \<and> e < N \<and> list_all (\<lambda>k. cmask ! k) [s..<e + 1]
     \<and> (s = 0 \<or> \<not> cmask ! (s - 1)) \<and> (e + 1 = N \<or> \<not> cmask ! (e + 1))"

definition mean_over :: "(int \<Rightarrow> 'a) \<Rightarrow> 'a::{zero,plus,ord,inverse} list \<Rightarrow> nat \<Rightarrow> nat \<Rightarrow> 'a" where
  "mean_over to_float P s e =
     py_sum (map (\<lambda>k. P ! k) [s..<e + 1]) / to_float (int (e - s + 1))"







section \<open>Properties of the Segment Extender\<close>

lemma extend_left_cases:
  assumes "extend_left start en pl th = Inr (s', c)"
  shows "(c \<and> s' = start - 1 \<and> start > 0) \<or> (\<not> c \<and> s' = start)"
  using assms by (auto simp: extend_left_def Let_def split: if_splits sum.splits)

lemma extend_right_cases:
  assumes "extend_right start en pl th n = Inr (e', c)"
  shows "(c \<and> e' = en + 1 \<and> en < n - 1) \<or> (\<not> c \<and> e' = en)"
  using assms by (auto simp: extend_right_def Let_def split: if_splits sum.splits)

lemma extend_round_step:
  assumes "extend_round start en pl th n = Inr (s', e', c)"
  shows "s' \<le> start \<and> start - 1 \<le> s' \<and> en \<le> e' \<and> e' \<le> en + 1 \<and> (c \<longleftrightarrow> s' < start \<or> en < e')
    \<and> (s' < start \<longrightarrow> 0 < start) \<and> (en < e' \<longrightarrow> en < n - 1)"
proof -
  from assms obtain c1 c2 where
    l: "extend_left start en pl th = Inr (s', c1)" and
    r: "extend_right s' en pl th n = Inr (e', c2)" and c: "c = (c1 \<or> c2)"
    by (auto simp: extend_round_def split: sum.splits prod.splits)
  from extend_left_cases[OF l] extend_right_cases[OF r] c show ?thesis
    by auto
qed

lemma extend_segment_err:
  "extend_round start en pl th n = Inl err \<Longrightarrow> extend_segment start en pl th n = Inl err"
  by (subst extend_segment.simps) simp

lemma extend_segment_more:
  "extend_round start en pl th n = Inr (s1, e1, True) \<Longrightarrow>
   extend_segment start en pl th n = extend_segment s1 e1 pl th n"
  by (subst extend_segment.simps) simp

lemma extend_segment_done:
  "extend_round start en pl th n = Inr (s1, e1, False) \<Longrightarrow>
   extend_segment start en pl th n = Inr (s1, e1)"
  by (subst extend_segment.simps) simp

lemma extend_segment_grows:
  "extend_segment start en pl th n = Inr (s', e') \<Longrightarrow> s' \<le> start \<and> en \<le> e'"
proof (induction start en pl th n rule: extend_segment.induct)
  case (1 start en pl th n)
  show ?case
  proof (cases "extend_round start en pl th n")
    case (Inl err)
    with "1.prems" show ?thesis by (simp add: extend_segment_err)
  next
    case (Inr r)
    obtain s1 e1 c where r: "r = (s1, e1, c)" by (cases r) auto
    note rd = Inr[unfolded r]
    from extend_round_step[OF rd] have st: "s1 \<le> start" "en \<le> e1" by auto
    show ?thesis
    proof (cases c)
      case True
      with rd "1.prems" have "extend_segment s1 e1 pl th n = Inr (s', e')"
        by (simp add: extend_segment_more)
      with "1.IH"[OF rd refl refl] True have "s' \<le> s1 \<and> e1 \<le> e'" by simp
      with st show ?thesis by linarith
    next
      case False
      with rd "1.prems" have "s' = s1" "e' = e1" by (simp_all add: extend_segment_done)
      with st show ?thesis by simp
    qed
  qed
qed

lemma extend_segment_fixed:
  "extend_segment start en pl th n = Inr (s', e') \<Longrightarrow>
   extend_round s' e' pl th n = Inr (s', e', False)"
proof (induction start en pl th n rule: extend_segment.induct)
  case (1 start en pl th n)
  show ?case
  proof (cases "extend_round start en pl th n")
    case (Inl err)
    with "1.prems" show ?thesis by (simp add: extend_segment_err)
  next
    case (Inr r)
    obtain s1 e1 c where r: "r = (s1, e1, c)" by (cases r) auto
    note rd = Inr[unfolded r]
    show ?thesis
    proof (cases c)
      case True
      with rd "1.prems" have "extend_segment s1 e1 pl th n = Inr (s', e')"
        by (simp add: extend_segment_more)
      with "1.IH"[OF rd refl refl] True show ?thesis by simp
    next
      case False
      with rd "1.prems" have eq: "s' = s1" "e' = e1" by (simp_all add: extend_segment_done)
      from extend_round_step[OF rd] False have "s1 = start" "e1 = en" by auto
      with rd eq False show ?thesis by simp
    qed
  qed
qed

lemma extend_while_total:
  "extend_while start en pl th n = Some (extend_segment start en pl th n)"
proof (induction start en pl th n rule: extend_segment.induct)
  case (1 start en pl th n)
  show ?case
  proof (cases "extend_round start en pl th n")
    case (Inl err)
    then show ?thesis
      by (subst extend_while.simps) (simp add: extend_segment_err)
  next
    case (Inr r)
    obtain s1 e1 c where r: "r = (s1, e1, c)" by (cases r) auto
    note rd = Inr[unfolded r]
    show ?thesis
    proof (cases c)
      case True
      from "1.IH"[OF rd refl refl] True
      have "extend_while s1 e1 pl th n = Some (extend_segment s1 e1 pl th n)" by simp
      with rd True show ?thesis
        by (subst extend_while.simps) (simp add: extend_segment_more)
    next
      case False
      with rd show ?thesis
        by (subst extend_while.simps) (simp add: extend_segment_done)
    qed
  qed
qed

lemma py_get_in_range:
  "0 \<le> i \<Longrightarrow> i < int (length xs) \<Longrightarrow> py_get xs i = Inr (xs ! nat i)"
  by (simp add: py_get_def)

lemma take3_drop:
  assumes "k + 3 \<le> length xs"
  shows "take 3 (drop k xs) = [xs ! k, xs ! (k + 1), xs ! (k + 2)]"
proof (rule nth_equalityI)
  show "length (take 3 (drop k xs)) = length [xs ! k, xs ! (k + 1), xs ! (k + 2)]"
    using assms by simp
next
  fix i assume "i < length (take 3 (drop k xs))"
  then have "i < 3" by simp
  then consider "i = 0" | "i = 1" | "i = 2" by linarith
  then show "take 3 (drop k xs) ! i = [xs ! k, xs ! (k + 1), xs ! (k + 2)] ! i"
    using assms by cases simp_all
qed

lemma py_slice3:
  assumes "0 \<le> i" "i + 3 \<le> int (length xs)"
  shows "py_slice xs i (i + 3) = [xs ! nat i, xs ! nat (i + 1), xs ! nat (i + 2)]"
proof -
  have "py_slice xs i (i + 3) = take 3 (drop (nat i) xs)"
    using assms by (simp add: py_slice_def Let_def min_def)
  also have "\<dots> = [xs ! nat i, xs ! (nat i + 1), xs ! (nat i + 2)]"
    using assms by (intro take3_drop) linarith
  finally have "py_slice xs i (i + 3) = [xs ! nat i, xs ! (nat i + 1), xs ! (nat i + 2)]" .
  moreover have "nat i + 1 = nat (i + 1)" "nat i + 2 = nat (i + 2)"
    using assms by linarith+
  ultimately show ?thesis by simp
qed

lemma extend_left_refines:
  assumes "0 \<le> start" "start \<le> en" "en < int (length pl)"
  shows "extend_left start en pl th =
           Inr (if grow_left pl th start en then start - 1 else start, grow_left pl th start en)"
proof (cases "start > 0 \<and> en - start + 1 \<ge> 3")
  case True
  then have g: "py_get pl (start - 1) = Inr (pl ! nat (start - 1))"
    using assms by (intro py_get_in_range) linarith+
  have s: "py_slice pl start (start + 3) = [pl ! nat start, pl ! nat (start + 1), pl ! nat (start + 2)]"
    using True assms by (intro py_slice3) linarith+
  show ?thesis using True by (simp add: extend_left_def grow_left_def g s)
next
  case False
  then show ?thesis by (auto simp: extend_left_def grow_left_def)
qed

lemma extend_right_refines:
  assumes "0 \<le> start" "start \<le> en" "en \<le> n - 1" "n \<le> int (length pl)"
  shows "extend_right start en pl th n =
           Inr (if grow_right pl th n start en then en + 1 else en, grow_right pl th n start en)"
proof (cases "en < n - 1 \<and> en - start + 1 \<ge> 3")
  case True
  then have g: "py_get pl (en + 1) = Inr (pl ! nat (en + 1))"
    using assms by (intro py_get_in_range) linarith+
  have "py_slice pl (en - 2) (en - 2 + 3) = [pl ! nat (en - 2), pl ! nat (en - 2 + 1), pl ! nat (en - 2 + 2)]"
    using True assms by (intro py_slice3) linarith+
  then have s: "py_slice pl (en - 2) (en + 1) = [pl ! nat (en - 2), pl ! nat (en - 1), pl ! nat en]"
    by (simp add: algebra_simps)
  show ?thesis using True by (simp add: extend_right_def grow_right_def g s)
next
  case False
  then show ?thesis by (auto simp: extend_right_def grow_right_def)
qed

lemma grow_right_after_left:
  "grow_right pl th n (if grow_left pl th start en then start - 1 else start) en = grow_right pl th n start en"
  by (auto simp: grow_right_def grow_left_def)

lemma extend_round_refines:
  assumes "in_bounds n (start, en)" "n \<le> int (length pl)"
  shows "extend_round start en pl th n =
           Inr (fst (grow_round pl th n (start, en)), snd (grow_round pl th n (start, en)),
                grow_round pl th n (start, en) \<noteq> (start, en))"
proof -
  let ?s1 = "if grow_left pl th start en then start - 1 else start"
  from assms have b: "0 \<le> start" "start \<le> en" "en \<le> n - 1" by (simp_all add: in_bounds_def)
  have l: "extend_left start en pl th = Inr (?s1, grow_left pl th start en)"
    using b assms(2) by (intro extend_left_refines) linarith+
  have "0 \<le> ?s1" "?s1 \<le> en" using b by (auto simp: grow_left_def)
  then have r: "extend_right ?s1 en pl th n =
      Inr (if grow_right pl th n start en then en + 1 else en, grow_right pl th n start en)"
    using b assms(2) extend_right_refines[of ?s1 en n pl th] by (simp only: grow_right_after_left)
  have "extend_round start en pl th n =
      Inr (?s1, if grow_right pl th n start en then en + 1 else en,
           grow_left pl th start en \<or> grow_right pl th n start en)"
    by (simp only: extend_round_def l r sum.case prod.case)
  then show ?thesis
    by (auto simp: grow_round_def)
qed

lemma grow_round_in_bounds:
  "in_bounds n seg \<Longrightarrow> in_bounds n (grow_round pl th n seg)"
  by (cases seg) (auto simp: in_bounds_def grow_round_def grow_left_def grow_right_def)

lemma extend_segment_refines:
  assumes "in_bounds n (start, en)" "n \<le> int (length pl)"
  shows "\<exists>k. extend_segment start en pl th n = Inr ((grow_round pl th n ^^ k) (start, en))
           \<and> grow_round pl th n ((grow_round pl th n ^^ k) (start, en)) = (grow_round pl th n ^^ k) (start, en)
           \<and> (\<forall>j<k. (grow_round pl th n ^^ Suc j) (start, en) \<noteq> (grow_round pl th n ^^ j) (start, en))"
  using assms
proof (induction start en pl th n rule: extend_segment.induct)
  case (1 start en pl th n)
  let ?g = "grow_round pl th n"
  obtain s1 e1 where g: "?g (start, en) = (s1, e1)" by (cases "?g (start, en)") auto
  have rd: "extend_round start en pl th n = Inr (s1, e1, (s1, e1) \<noteq> (start, en))"
    using extend_round_refines[OF "1.prems"] g by simp
  show ?case
  proof (cases "(s1, e1) = (start, en)")
    case True
    with rd have "extend_segment start en pl th n = Inr (start, en)"
      by (simp add: extend_segment_done)
    moreover from g True have "?g (start, en) = (start, en)" by simp
    ultimately have "extend_segment start en pl th n = Inr ((?g ^^ 0) (start, en))
       \<and> ?g ((?g ^^ 0) (start, en)) = (?g ^^ 0) (start, en)
       \<and> (\<forall>j<0. (?g ^^ Suc j) (start, en) \<noteq> (?g ^^ j) (start, en))" by simp
    then show ?thesis by blast
  next
    case False
    have ib: "in_bounds n (s1, e1)" using grow_round_in_bounds[OF "1.prems"(1), of pl th] g by simp
    from "1.IH"[OF rd refl refl _ ib "1.prems"(2)] False obtain k where
      k: "extend_segment s1 e1 pl th n = Inr ((?g ^^ k) (s1, e1))"
         "?g ((?g ^^ k) (s1, e1)) = (?g ^^ k) (s1, e1)"
         "\<forall>j<k. (?g ^^ Suc j) (s1, e1) \<noteq> (?g ^^ j) (s1, e1)" by auto
    have shift: "\<And>j. (?g ^^ Suc j) (start, en) = (?g ^^ j) (s1, e1)"
      using g by (simp add: funpow_swap1)
    have "extend_segment start en pl th n = extend_segment s1 e1 pl th n"
      using rd False by (simp add: extend_segment_more)
    with k(1) have a: "extend_segment start en pl th n = Inr ((?g ^^ Suc k) (start, en))"
      by (simp only: shift)
    have b: "?g ((?g ^^ Suc k) (start, en)) = (?g ^^ Suc k) (start, en)"
      using k(2) by (simp only: shift)
    have c: "(?g ^^ Suc j) (start, en) \<noteq> (?g ^^ j) (start, en)" if "j < Suc k" for j
    proof (cases j)
      case 0
      with g False show ?thesis by simp
    next
      case (Suc j')
      with that have "j' < k" by simp
      with k(3) have "(?g ^^ Suc j') (s1, e1) \<noteq> (?g ^^ j') (s1, e1)" by blast
      then show ?thesis unfolding Suc shift .
    qed
    from a b c show ?thesis by blast
  qed
qed



lemma extend_round_in_bounds:
  assumes "extend_round start en pl th n = Inr (s', e', c)" "in_bounds n (start, en)"
  shows "in_bounds n (s', e')"
  using extend_round_step[OF assms(1)] assms(2) by (auto simp: in_bounds_def)

lemma map_err_all2:
  "map_err f xs = Inr ys \<Longrightarrow> list_all2 (\<lambda>x y. f x = Inr y) xs ys"
  by (induction xs arbitrary: ys) (auto split: sum.splits)

text \<open>
  C1. For a segment \<open>0 \<le> start \<le> en \<le> seq_len - 1\<close> of a propensity list that covers the
  sequence, a round of the Extender is the round of the specification: the left boundary
  moves down by one exactly when \<open>start > 0\<close>, the segment has at least 3 residues and the
  window of \<open>start - 1, start, start + 1, start + 2\<close> sums to the threshold or more; the
  right boundary moves up by one exactly on the mirrored test on \<open>en - 2, en - 1, en, en + 1\<close>;
  the round reports a change exactly when a boundary moved. The Extender returns the first
  segment, in the iteration of that round from \<open>(start, en)\<close>, that the round leaves unchanged.
\<close>

theorem extend_segment_is_spec_fixed_point:
  assumes "0 \<le> start" "start \<le> en" "en \<le> n - 1" "n \<le> int (length pl)"
  shows "extend_round start en pl th n =
           Inr (fst (grow_round pl th n (start, en)), snd (grow_round pl th n (start, en)),
                grow_round pl th n (start, en) \<noteq> (start, en))
         \<and> (\<exists>k. extend_segment start en pl th n = Inr ((grow_round pl th n ^^ k) (start, en))
              \<and> grow_round pl th n ((grow_round pl th n ^^ k) (start, en)) =
                  (grow_round pl th n ^^ k) (start, en)
              \<and> (\<forall>j<k. (grow_round pl th n ^^ Suc j) (start, en) \<noteq>
                         (grow_round pl th n ^^ j) (start, en)))"
proof -
  from assms have ib: "in_bounds n (start, en)" by (simp add: in_bounds_def)
  from extend_round_refines[OF ib assms(4)] extend_segment_refines[OF ib assms(4)]
  show ?thesis by blast
qed

theorem extend_segment_is_spec_fixed_point_witness:
  "(0::int) \<le> 1 \<and> (1::int) \<le> 3 \<and> (3::int) \<le> 6 - 1 \<and> (6::int) \<le> int (length (Palpha_list ''EEEEEE''))
   \<and> extend_round 1 3 (Palpha_list ''EEEEEE'') 4 6 =
           Inr (fst (grow_round (Palpha_list ''EEEEEE'') 4 6 (1, 3)),
                snd (grow_round (Palpha_list ''EEEEEE'') 4 6 (1, 3)),
                grow_round (Palpha_list ''EEEEEE'') 4 6 (1, 3) \<noteq> (1, 3))
   \<and> (\<exists>k. extend_segment 1 3 (Palpha_list ''EEEEEE'') 4 6 =
              Inr ((grow_round (Palpha_list ''EEEEEE'') 4 6 ^^ k) (1, 3))
          \<and> grow_round (Palpha_list ''EEEEEE'') 4 6 ((grow_round (Palpha_list ''EEEEEE'') 4 6 ^^ k) (1, 3)) =
              (grow_round (Palpha_list ''EEEEEE'') 4 6 ^^ k) (1, 3)
          \<and> (\<forall>j<k. (grow_round (Palpha_list ''EEEEEE'') 4 6 ^^ Suc j) (1, 3) \<noteq>
                     (grow_round (Palpha_list ''EEEEEE'') 4 6 ^^ j) (1, 3)))"
proof -
  have h: "(0::int) \<le> 1" "(1::int) \<le> 3" "(3::int) \<le> 6 - 1"
    "(6::int) \<le> int (length (Palpha_list ''EEEEEE''))"
    by (simp_all add: Palpha_list_def)
  from extend_segment_is_spec_fixed_point[OF h, of 4] h show ?thesis by blast
qed

text \<open>
  C7. The loop of the Extender, written with no termination argument, returns (a segment
  or the error of an out-of-range read) on every input. For a segment
  \<open>0 \<le> start \<le> en \<le> seq_len - 1\<close>, a round that reports a change returns a strictly longer
  segment that is still inside the sequence, so of length at most \<open>seq_len\<close>.
\<close>

theorem extend_segment_terminates:
  "(\<exists>r. extend_while start en pl th n = Some r)
   \<and> (0 \<le> start \<and> start \<le> en \<and> en \<le> n - 1 \<and> extend_round start en pl th n = Inr (s', e', True)
        \<longrightarrow> en - start + 1 < e' - s' + 1 \<and> 0 \<le> s' \<and> s' \<le> e' \<and> e' \<le> n - 1 \<and> e' - s' + 1 \<le> n)"
proof -
  have "\<exists>r. extend_while start en pl th n = Some r"
    by (simp add: extend_while_total)
  moreover have "en - start + 1 < e' - s' + 1 \<and> 0 \<le> s' \<and> s' \<le> e' \<and> e' \<le> n - 1 \<and> e' - s' + 1 \<le> n"
    if b: "0 \<le> start" "start \<le> en" "en \<le> n - 1"
      and r: "extend_round start en pl th n = Inr (s', e', True)"
  proof -
    from b have "in_bounds n (start, en)" by (simp add: in_bounds_def)
    from extend_round_in_bounds[OF r this] have "0 \<le> s'" "s' \<le> e'" "e' \<le> n - 1"
      by (simp_all add: in_bounds_def)
    with extend_round_step[OF r] show ?thesis by auto
  qed
  ultimately show ?thesis by blast
qed

theorem extend_segment_terminates_witness:
  "(\<exists>r. extend_while 1 3 (Palpha_list ''EEEEEE'') 4 6 = Some r)
   \<and> (0::int) \<le> 1 \<and> (1::int) \<le> 3 \<and> (3::int) \<le> 6 - 1
   \<and> extend_round 1 3 (Palpha_list ''EEEEEE'') 4 6 = Inr (0, 4, True)
   \<and> (3::int) - 1 + 1 < 4 - 0 + 1 \<and> (4::int) - 0 + 1 \<le> 6"
proof -
  have r: "extend_round 1 3 (Palpha_list ''EEEEEE'') 4 6 = Inr (0, 4, True)"
    by code_simp
  from extend_segment_terminates[of 1 3 "Palpha_list ''EEEEEE''" 4 6 0 4] r
  show ?thesis by simp
qed

text \<open>
  C8. The Extender is idempotent: run again on the segment it returned, with the same
  propensities, threshold and sequence length, it returns that segment unchanged.
\<close>

theorem extend_segment_idempotent:
  assumes "extend_segment start en pl th n = Inr (s', e')"
  shows "extend_segment s' e' pl th n = Inr (s', e')"
  using extend_segment_fixed[OF assms] by (rule extend_segment_done)

theorem extend_segment_idempotent_witness:
  "extend_segment 1 3 (Palpha_list ''EEEEEE'') 4 6 = Inr (0, 5)
   \<and> extend_segment 0 5 (Palpha_list ''EEEEEE'') 4 6 = Inr (0, 5)"
proof -
  have h: "extend_segment 1 3 (Palpha_list ''EEEEEE'') 4 6 = Inr (0, 5)"
    by code_simp
  from extend_segment_idempotent[OF h] h show ?thesis by simp
qed

text \<open>
  C10. The Extender never shrinks a segment: the segment it returns starts at or before
  \<open>start\<close> and ends at or after \<open>en\<close>. So, when a nucleation loop completes, each seed window
  \<open>[i, i + w - 1]\<close> lies inside the segment appended for it.
\<close>

theorem extend_segment_never_shrinks:
  "(extend_segment start en pl th n = Inr (s', e') \<longrightarrow> s' \<le> start \<and> en \<le> e')
   \<and> (nucleate pl w m th N = Inr segs \<longrightarrow>
        list_all2 (\<lambda>i seg. fst seg \<le> i \<and> i + w - 1 \<le> snd seg) (seed_starts pl w m N) segs)"
proof -
  have "list_all2 (\<lambda>i seg. fst seg \<le> i \<and> i + w - 1 \<le> snd seg) (seed_starts pl w m N) segs"
    if "nucleate pl w m th N = Inr segs"
  proof -
    from that have "list_all2 (\<lambda>i seg. extend_segment i (i + w - 1) pl th N = Inr seg)
        (seed_starts pl w m N) segs"
      unfolding nucleate_def by (rule map_err_all2)
    then show ?thesis
    proof (rule list_all2_mono)
      fix i seg assume "extend_segment i (i + w - 1) pl th N = Inr seg"
      then have "extend_segment i (i + w - 1) pl th N = Inr (fst seg, snd seg)" by simp
      from extend_segment_grows[OF this] show "fst seg \<le> i \<and> i + w - 1 \<le> snd seg" .
    qed
  qed
  with extend_segment_grows[of start en pl th n s' e'] show ?thesis by blast
qed

theorem extend_segment_never_shrinks_witness:
  "extend_segment 1 3 (Palpha_list ''EEEEEE'') 4 6 = Inr (0, 5) \<and> (0::int) \<le> 1 \<and> (3::int) \<le> 5
   \<and> nucleate (Palpha_list ''EEEEEE'') 6 4 4 6 = Inr [(0, 5)]
   \<and> list_all2 (\<lambda>i seg. fst seg \<le> i \<and> i + 6 - 1 \<le> snd seg)
        (seed_starts (Palpha_list ''EEEEEE'') 6 4 6) [(0, 5)]"
proof -
  have h: "extend_segment 1 3 (Palpha_list ''EEEEEE'') 4 6 = Inr (0, 5)"
    by code_simp
  have g: "nucleate (Palpha_list ''EEEEEE'') 6 4 4 6 = Inr [(0, 5)]"
    by code_simp
  from extend_segment_never_shrinks[of 1 3 "Palpha_list ''EEEEEE''" 4 6 0 5 6 4 6 "[(0, 5)]"] h g
  show ?thesis by simp
qed

section \<open>Properties of the Segment Merger\<close>

lemma foldl_merge_step:
  "foldl merge_step (pre @ [acc]) rest = pre @ merge_acc acc rest"
proof (induction rest arbitrary: pre acc)
  case Nil
  then show ?case by simp
next
  case (Cons seg rest)
  show ?case
  proof (cases "fst seg \<le> snd acc + 1")
    case True
    then have "merge_step (pre @ [acc]) seg = pre @ [(fst acc, max (snd acc) (snd seg))]"
      by (cases acc; cases seg) (simp add: merge_step_def)
    with True Cons.IH[of pre "(fst acc, max (snd acc) (snd seg))"] show ?thesis by simp
  next
    case False
    then have "merge_step (pre @ [acc]) seg = (pre @ [acc]) @ [seg]"
      by (cases acc; cases seg) (simp add: merge_step_def)
    with False Cons.IH[of "pre @ [acc]" seg] show ?thesis by simp
  qed
qed

lemma merge_acc_starts:
  "fst ` set (merge_acc acc rest) \<subseteq> insert (fst acc) (fst ` set rest)"
proof (induction rest arbitrary: acc)
  case Nil
  then show ?case by simp
next
  case (Cons seg rest)
  show ?case
  proof (cases "fst seg \<le> snd acc + 1")
    case True
    with Cons.IH[of "(fst acc, max (snd acc) (snd seg))"] show ?thesis by auto
  next
    case False
    with Cons.IH[of seg] show ?thesis by auto
  qed
qed

lemma merge_acc_disjoint:
  assumes "sorted (map fst (acc # rest))"
  shows "sorted (map fst (merge_acc acc rest))
         \<and> sorted_wrt (\<lambda>a b. snd a + 1 < fst b) (merge_acc acc rest)"
  using assms
proof (induction rest arbitrary: acc)
  case Nil
  then show ?case by simp
next
  case (Cons seg rest)
  from Cons.prems have le: "fst acc \<le> fst seg" and all: "\<forall>x\<in>set rest. fst seg \<le> fst x"
    and srt: "sorted (map fst (seg # rest))" by auto
  show ?case
  proof (cases "fst seg \<le> snd acc + 1")
    case True
    have "sorted (map fst ((fst acc, max (snd acc) (snd seg)) # rest))"
      using Cons.prems by auto
    from Cons.IH[OF this] True show ?thesis by simp
  next
    case False
    have st: "\<forall>b\<in>set (merge_acc seg rest). fst seg \<le> fst b"
    proof
      fix b assume "b \<in> set (merge_acc seg rest)"
      then have "fst b \<in> fst ` set (merge_acc seg rest)" by (rule imageI)
      with merge_acc_starts[of seg rest] have "fst b \<in> insert (fst seg) (fst ` set rest)"
        by blast
      with all show "fst seg \<le> fst b" by auto
    qed
    from Cons.IH[OF srt] False st le show ?thesis by (auto simp: less_le_trans) 
  qed
qed

lemma sorted_fst_of_sorted:
  "sorted (xs :: (int \<times> int) list) \<Longrightarrow> sorted (map fst xs)"
  unfolding sorted_map by (erule sorted_wrt_mono_rel[rotated]) (auto simp: less_eq_prod_def)

text \<open>
  C4. For every list of segments, the Merger is the fold of the specification over the
  sorted input (a segment merges into the accumulator exactly when its start is at most
  the accumulator's end plus one, and then the accumulator's end becomes the larger of the
  two ends); its result is sorted by start index, and any two of its segments, the first
  before the second, satisfy \<open>end + 1 < start\<close>: they neither overlap nor touch.
\<close>

theorem merge_segments_disjoint:
  "merge_segments segments =
      (case sort segments of [] \<Rightarrow> [] | seg # rest \<Rightarrow> merge_acc seg rest)
   \<and> sorted (map fst (merge_segments segments))
   \<and> sorted_wrt (\<lambda>a b. snd a + 1 < fst b) (merge_segments segments)"
proof (cases "sort segments")
  case Nil
  then have "segments = []" by (metis length_sort length_0_conv)
  then show ?thesis by (simp add: merge_segments_def)
next
  case (Cons seg rest)
  then have ne: "segments \<noteq> []" by auto
  have "foldl merge_step ([] @ [seg]) rest = [] @ merge_acc seg rest"
    by (rule foldl_merge_step)
  then have eq: "merge_segments segments = merge_acc seg rest"
    using ne Cons by (simp add: merge_segments_def)
  have "sorted (seg # rest)" using sorted_sort[of segments] Cons by simp
  then have "sorted (map fst (seg # rest))" by (rule sorted_fst_of_sorted)
  from merge_acc_disjoint[OF this] eq Cons show ?thesis by simp
qed

section \<open>Properties of the Window Scanner and the tables\<close>

lemma py_slice_window:
  assumes "0 \<le> i" "0 \<le> w" "i + w \<le> int (length xs)"
  shows "py_slice xs i (i + w) = map (\<lambda>k. xs ! nat k) [i..i + w - 1]"
proof (rule nth_equalityI)
  have s: "py_slice xs i (i + w) = take (nat w) (drop (nat i) xs)"
    using assms by (simp add: py_slice_def Let_def min_def)
  show "length (py_slice xs i (i + w)) = length (map (\<lambda>k. xs ! nat k) [i..i + w - 1])"
    using assms by (simp add: s)
  fix j assume "j < length (py_slice xs i (i + w))"
  then have j: "j < nat w" by (simp add: s)
  then have "[i..i + w - 1] ! j = i + int j" by (intro nth_upto) linarith
  moreover have "nat (i + int j) = nat i + j" using assms by linarith
  moreover have "j < length [i..i + w - 1]" using j by simp
  ultimately show "py_slice xs i (i + w) ! j = map (\<lambda>k. xs ! nat k) [i..i + w - 1] ! j"
    using j assms by (simp add: s)
qed

lemma window_count:
  assumes "0 \<le> i" "0 \<le> w" "i + w \<le> int (length xs)"
  shows "length (filter P (py_slice xs i (i + w))) = card {k. i \<le> k \<and> k < i + w \<and> P (xs ! nat k)}"
proof -
  have "length (filter P (py_slice xs i (i + w))) = length (filter (\<lambda>k. P (xs ! nat k)) [i..i + w - 1])"
    by (simp add: py_slice_window[OF assms] length_filter_map comp_def)
  also have "\<dots> = card ({k. P (xs ! nat k)} \<inter> set [i..i + w - 1])"
    by (rule distinct_length_filter) simp
  also have "{k. P (xs ! nat k)} \<inter> set [i..i + w - 1] = {k. i \<le> k \<and> k < i + w \<and> P (xs ! nat k)}"
    by auto
  finally show ?thesis .
qed

text \<open>
  C2. For a propensity list of length \<open>N\<close> and a window width \<open>w \<ge> 0\<close>, the start indices
  taken as seeds are exactly the \<open>i\<close> with \<open>0 \<le> i \<le> N - w\<close> for which at least \<open>m\<close> of the
  values at \<open>i, \<dots>, i + w - 1\<close> are strictly greater than 1; they are visited in strictly
  ascending order. The helix loop scans with \<open>w = 6, m = 4\<close>, the strand loop with
  \<open>w = 5, m = 3\<close>, whatever floats the literals are read as.
\<close>

theorem seed_starts_exact:
  assumes "0 \<le> w"
  shows "set (seed_starts pl w m (int (length pl))) =
           {i. 0 \<le> i \<and> i \<le> int (length pl) - w
               \<and> m \<le> int (card {k. i \<le> k \<and> k < i + w \<and> 1 < pl ! nat k})}
         \<and> sorted_wrt (<) (seed_starts pl w m (int (length pl)))
         \<and> helix_segments lit SEQ =
             (case map_err (\<lambda>i. extend_segment i (i + 6 - 1) (map lit (Palpha_list SEQ)) (lit 4.0)
                                 (int (length SEQ)))
                     (seed_starts (map lit (Palpha_list SEQ)) 6 4 (int (length SEQ))) of
                Inl err \<Rightarrow> Inl err | Inr segs \<Rightarrow> Inr (merge_segments segs))
         \<and> strand_segments lit SEQ =
             (case map_err (\<lambda>i. extend_segment i (i + 5 - 1) (map lit (Pbeta_list SEQ)) (lit 4.0000001)
                                 (int (length SEQ)))
                     (seed_starts (map lit (Pbeta_list SEQ)) 5 3 (int (length SEQ))) of
                Inl err \<Rightarrow> Inl err | Inr segs \<Rightarrow> Inr (merge_segments segs))"
proof -
  let ?N = "int (length pl)"
  have a: "set (seed_starts pl w m ?N) =
           {i. 0 \<le> i \<and> i \<le> ?N - w \<and> m \<le> int (card {k. i \<le> k \<and> k < i + w \<and> 1 < pl ! nat k})}"
    (is "?L = ?R")
  proof (rule set_eqI)
    fix i
    show "i \<in> ?L \<longleftrightarrow> i \<in> ?R"
    proof (cases "0 \<le> i \<and> i \<le> ?N - w")
      case True
      then have "length (filter (\<lambda>v. 1 < v) (py_slice pl i (i + w))) =
                 card {k. i \<le> k \<and> k < i + w \<and> 1 < pl ! nat k}"
        using assms by (intro window_count) linarith+
      with True show ?thesis
        by (simp add: seed_starts_def py_range_def window_has_min_over_1_def)
    next
      case False
      then show ?thesis by (auto simp: seed_starts_def py_range_def)
    qed
  qed
  have b: "sorted_wrt (<) (seed_starts pl w m ?N)"
    unfolding seed_starts_def py_range_def
    by (rule sorted_wrt_filter) (simp add: sorted_wrt_upto) 
  have c: "helix_segments lit SEQ =
             (case map_err (\<lambda>i. extend_segment i (i + 6 - 1) (map lit (Palpha_list SEQ)) (lit 4.0)
                                 (int (length SEQ)))
                     (seed_starts (map lit (Palpha_list SEQ)) 6 4 (int (length SEQ))) of
                Inl err \<Rightarrow> Inl err | Inr segs \<Rightarrow> Inr (merge_segments segs))"
    by (simp only: helix_segments_def nucleate_def)
  have d: "strand_segments lit SEQ =
             (case map_err (\<lambda>i. extend_segment i (i + 5 - 1) (map lit (Pbeta_list SEQ)) (lit 4.0000001)
                                 (int (length SEQ)))
                     (seed_starts (map lit (Pbeta_list SEQ)) 5 3 (int (length SEQ))) of
                Inl err \<Rightarrow> Inl err | Inr segs \<Rightarrow> Inr (merge_segments segs))"
    by (simp only: strand_segments_def nucleate_def)
  from a b c d show ?thesis by blast
qed

lemma xe_alpha: "map_of P_ALPHA (''EEEEXE'' ! 4) = None" by code_simp
lemma xe_beta: "map_of P_BETA (''EEEEXE'' ! 4) = None" by code_simp
lemma xe_window: "in_seed_window (Palpha_list ''EEEEXE'') 6 4 6 4" by code_simp
lemma xe_helix: "helix_segments id ''EEEEXE'' = Inr [(0, 5)]" by code_simp
lemma xe_seeds: "seed_starts (Palpha_list ''EEEEXE'') 6 4 6 = [0]" by code_simp
lemma x_alpha: "map_of P_ALPHA (CHR ''X'') = None" by code_simp
lemma x_beta: "map_of P_BETA (CHR ''X'') = None" by code_simp

theorem seed_starts_exact_witness:
  "(0::int) \<le> 6
   \<and> set (seed_starts (Palpha_list ''EEEEXE'') 6 4 (int (length (Palpha_list ''EEEEXE'')))) =
       {i. 0 \<le> i \<and> i \<le> int (length (Palpha_list ''EEEEXE'')) - 6
           \<and> 4 \<le> int (card {k. i \<le> k \<and> k < i + 6 \<and> 1 < Palpha_list ''EEEEXE'' ! nat k})}
   \<and> seed_starts (Palpha_list ''EEEEXE'') 6 4 6 = [0]"
proof -
  have h: "(0::int) \<le> 6" by simp
  from seed_starts_exact[OF h, of "Palpha_list ''EEEEXE''" 4, THEN conjunct1]
  have "set (seed_starts (Palpha_list ''EEEEXE'') 6 4 (int (length (Palpha_list ''EEEEXE'')))) =
       {i. 0 \<le> i \<and> i \<le> int (length (Palpha_list ''EEEEXE'')) - 6
           \<and> 4 \<le> int (card {k. i \<le> k \<and> k < i + 6 \<and> 1 < Palpha_list ''EEEEXE'' ! nat k})}"
    .
  with h xe_seeds show ?thesis by (intro conjI)
qed

text \<open>
  C9, as stated, fails: in \<open>EEEEXE\<close> the residue \<open>X\<close> at index 4 is in neither table, yet
  the window starting at 0 is a helix seed (five of its six values exceed 1), index 4 lies
  inside it, and the helix segment \<open>[0, 5]\<close> covers it. On this input no sum is evaluated
  (the seed already spans the sequence), only table values are compared with 1; the
  literals are read as they are written.
\<close>

theorem unknown_residue_in_seed_counterexample:
  "map_of P_ALPHA (''EEEEXE'' ! 4) = None \<and> map_of P_BETA (''EEEEXE'' ! 4) = None
   \<and> in_seed_window (Palpha_list ''EEEEXE'') 6 4 6 4
   \<and> helix_segments id ''EEEEXE'' = Inr [(0, 5)]"
  using xe_alpha xe_beta xe_window xe_helix by (intro conjI)

text \<open>
  C9, amended. A residue code absent from both tables has propensity 0 in both propensity
  lists, which is not greater than 1, so it is never one of the residues counted by the
  scanner: deleting it from a window does not change whether the window passes the count.
\<close>

theorem unknown_residue_not_counted:
  assumes "map_of P_ALPHA r = None" "map_of P_BETA r = None"
  shows "pa r = 0 \<and> pb r = 0 \<and> \<not> 1 < pa r \<and> \<not> 1 < pb r
         \<and> (\<forall>i<length SEQ. SEQ ! i = r \<longrightarrow> Palpha_list SEQ ! i = 0 \<and> Pbeta_list SEQ ! i = 0)
         \<and> window_has_min_over_1 (map pa vals) m = window_has_min_over_1 (map pa (removeAll r vals)) m
         \<and> window_has_min_over_1 (map pb vals) m = window_has_min_over_1 (map pb (removeAll r vals)) m"
proof -
  from assms have z: "pa r = 0" "pb r = 0" by (simp_all add: pa_def pb_def)
  have cnt: "length (filter (\<lambda>v. 1 < v) (map f vals)) = length (filter (\<lambda>v. 1 < v) (map f (removeAll r vals)))"
    if "f r = (0::rat)" for f
    using that by (induction vals) auto
  have w: "window_has_min_over_1 (map f vals) m = window_has_min_over_1 (map f (removeAll r vals)) m"
    if "f r = (0::rat)" for f
    unfolding window_has_min_over_1_def using cnt[of f] that by simp
  have l: "\<forall>i<length SEQ. SEQ ! i = r \<longrightarrow> Palpha_list SEQ ! i = 0 \<and> Pbeta_list SEQ ! i = 0"
    using z by (simp add: Palpha_list_def Pbeta_list_def)
  have n: "\<not> 1 < pa r" "\<not> 1 < pb r" using z by simp_all
  from z n l w[of pa] w[of pb] show ?thesis by (intro conjI)
qed

theorem unknown_residue_not_counted_witness:
  "map_of P_ALPHA (CHR ''X'') = None \<and> map_of P_BETA (CHR ''X'') = None
   \<and> pa (CHR ''X'') = 0 \<and> pb (CHR ''X'') = 0
   \<and> window_has_min_over_1 (map pa ''EEEEXE'') 4 = window_has_min_over_1 (map pa (removeAll (CHR ''X'') ''EEEEXE'')) 4"
proof -
  note t = unknown_residue_not_counted[OF x_alpha x_beta, of "''EEEEXE''" "''EEEEXE''" 4]
  have "pa (CHR ''X'') = 0" "pb (CHR ''X'') = 0"
    "window_has_min_over_1 (map pa ''EEEEXE'') 4 = window_has_min_over_1 (map pa (removeAll (CHR ''X'') ''EEEEXE'')) 4"
    using t by blast+
  with x_alpha x_beta show ?thesis by (intro conjI)
qed

section \<open>Properties of the Conflict Resolver\<close>

lemma region_end_ge: "j \<le> region_end cmask N j"
  by (induction cmask N j rule: region_end.induct) (subst region_end.simps, auto)

lemma region_end_lt: "j < N \<Longrightarrow> region_end cmask N j < N"
  by (induction cmask N j rule: region_end.induct) (subst region_end.simps, auto)

lemma region_end_step:
  "j + 1 < N \<Longrightarrow> cmask ! (j + 1) \<Longrightarrow> region_end cmask N j = region_end cmask N (j + 1)"
  by (subst region_end.simps) simp

lemma region_end_halt:
  "\<not> (j + 1 < N \<and> cmask ! (j + 1)) \<Longrightarrow> region_end cmask N j = j"
  by (subst region_end.simps) auto

lemma region_end_run: "j < k \<Longrightarrow> k \<le> region_end cmask N j \<Longrightarrow> cmask ! k"
proof (induction cmask N j rule: region_end.induct)
  case (1 cmask N j)
  show ?case
  proof (cases "j + 1 < N \<and> cmask ! (j + 1)")
    case True
    then have e: "region_end cmask N j = region_end cmask N (j + 1)"
      by (simp add: region_end_step)
    show ?thesis
    proof (cases "k = j + 1")
      case True
      with \<open>j + 1 < N \<and> cmask ! (j + 1)\<close> show ?thesis by simp
    next
      case False
      with "1.prems" have "j + 1 < k" by simp
      with "1.IH"[OF True] "1.prems" e show ?thesis by simp
    qed
  next
    case False
    then have "region_end cmask N j = j" by (rule region_end_halt)
    with "1.prems" show ?thesis by simp
  qed
qed

lemma region_end_stop: "region_end cmask N j + 1 < N \<Longrightarrow> \<not> cmask ! (region_end cmask N j + 1)"
proof (induction cmask N j rule: region_end.induct)
  case (1 cmask N j)
  show ?case
  proof (cases "j + 1 < N \<and> cmask ! (j + 1)")
    case True
    then have e: "region_end cmask N j = region_end cmask N (j + 1)"
      by (simp add: region_end_step)
    with "1.IH"[OF True] "1.prems" show ?thesis by simp
  next
    case False
    then have "region_end cmask N j = j" by (rule region_end_halt)
    with False "1.prems" show ?thesis by simp
  qed
qed

lemma max_run_iff:
  "max_run cmask N s e \<longleftrightarrow>
     s \<le> e \<and> e < N \<and> (\<forall>k. s \<le> k \<and> k \<le> e \<longrightarrow> cmask ! k)
     \<and> (s = 0 \<or> \<not> cmask ! (s - 1)) \<and> (e + 1 = N \<or> \<not> cmask ! (e + 1))"
proof -
  have "list_all (\<lambda>k. cmask ! k) [s..<e + 1] \<longleftrightarrow> (\<forall>k. s \<le> k \<and> k \<le> e \<longrightarrow> cmask ! k)"
    unfolding list_all_iff by (auto simp: less_Suc_eq_le)
  then show ?thesis unfolding max_run_def by blast
qed

lemma max_run_region_end:
  assumes "i < N" "cmask ! i" "i = 0 \<or> \<not> cmask ! (i - 1)"
  shows "max_run cmask N i (region_end cmask N i)"
proof -
  let ?j = "region_end cmask N i"
  have run: "cmask ! k" if "i \<le> k" "k \<le> ?j" for k
    using that assms(2) region_end_run[of i k cmask N] by (cases "k = i") auto
  have stop: "?j + 1 = N \<or> \<not> cmask ! (?j + 1)"
    using region_end_stop[of cmask N i] region_end_lt[OF assms(1), of cmask] by linarith
  show ?thesis
    unfolding max_run_iff
    using assms(3) region_end_ge[of i cmask N] region_end_lt[OF assms(1), of cmask] run stop
    by blast
qed

lemma max_run_unique_end:
  assumes "max_run cmask N s e" "max_run cmask N s e'"
  shows "e = e'"
proof (rule ccontr)
  assume ne: "e \<noteq> e'"
  have aux: False if a: "max_run cmask N s a" and b: "max_run cmask N s b" and lt: "a < b" for a b
  proof -
    from a have "s \<le> a" by (simp add: max_run_iff)
    with b lt have "cmask ! (a + 1)" unfolding max_run_iff by (metis Suc_eq_plus1 Suc_leI le_SucI)
    moreover from b lt have "a + 1 < N" by (simp add: max_run_iff)
    ultimately show False using a by (simp add: max_run_iff)
  qed
  from ne consider "e < e'" | "e' < e" by linarith
  then show False using aux assms by cases blast+
qed

lemma max_run_after:
  assumes "max_run cmask N s e" "max_run cmask N i j" "i < s"
  shows "j + 1 \<le> s"
proof (rule ccontr)
  assume "\<not> j + 1 \<le> s"
  then have "s - 1 \<le> j" "i \<le> s - 1" using assms(3) by linarith+
  with assms(2) have "cmask ! (s - 1)" unfolding max_run_iff by blast
  moreover from assms(3) have "s \<noteq> 0" by simp
  ultimately show False using assms(1) unfolding max_run_iff by blast
qed

lemma scan_regions_set:
  assumes "i = 0 \<or> \<not> cmask ! (i - 1) \<or> N \<le> i \<or> \<not> cmask ! i"
  shows "set (scan_regions cmask N i acc) = set acc \<union> {(s, e). i \<le> s \<and> max_run cmask N s e}"
  using assms
proof (induction cmask N i acc rule: scan_regions.induct)
  case (1 cmask N i acc)
  show ?case
  proof (cases "i < N")
    case False
    then have u: "scan_regions cmask N i acc = acc" by (subst scan_regions.simps) simp
    from False have e: "{(s, e). i \<le> s \<and> max_run cmask N s e} = {}"
      by (auto simp: max_run_iff)
    show ?thesis unfolding u e by simp
  next
    case lt: True
    show ?thesis
    proof (cases "cmask ! i")
      case False
      with lt have u: "scan_regions cmask N i acc = scan_regions cmask N (i + 1) acc"
        by (subst scan_regions.simps) simp
      have "{(s, e). i + 1 \<le> s \<and> max_run cmask N s e} = {(s, e). i \<le> s \<and> max_run cmask N s e}"
      proof -
        have "s \<noteq> i" if "max_run cmask N s e" for s e
          using that False unfolding max_run_iff by blast
        then show ?thesis by (auto simp: Suc_le_eq le_less)
      qed
      with "1.IH"(2)[OF lt False] False u show ?thesis by simp
    next
      case True
      let ?j = "region_end cmask N i"
      from lt True have u: "scan_regions cmask N i acc = scan_regions cmask N (?j + 1) (acc @ [(i, ?j)])"
        by (subst scan_regions.simps) (simp add: Let_def)
      from "1.prems" lt True have left: "i = 0 \<or> \<not> cmask ! (i - 1)" by auto
      have mr: "max_run cmask N i ?j" using lt True left by (rule max_run_region_end)
      have inv: "?j + 1 = 0 \<or> \<not> cmask ! (?j + 1 - 1) \<or> N \<le> ?j + 1 \<or> \<not> cmask ! (?j + 1)"
        using region_end_stop[of cmask N i] by auto
      have "{(s, e). i \<le> s \<and> max_run cmask N s e} =
            insert (i, ?j) {(s, e). ?j + 1 \<le> s \<and> max_run cmask N s e}" (is "?A = insert _ ?B")
      proof (rule set_eqI)
        fix p :: "nat \<times> nat"
        obtain s e where p: "p = (s, e)" by (cases p)
        show "p \<in> ?A \<longleftrightarrow> p \<in> insert (i, ?j) ?B"
        proof
          assume "p \<in> ?A"
          with p have se: "i \<le> s" "max_run cmask N s e" by auto
          show "p \<in> insert (i, ?j) ?B"
          proof (cases "s = i")
            case True
            with se mr have "e = ?j" by (auto intro: max_run_unique_end)
            with True p show ?thesis by simp
          next
            case False
            with se have "i < s" by simp
            from max_run_after[OF se(2) mr this] se p show ?thesis by simp
          qed
        next
          assume "p \<in> insert (i, ?j) ?B"
          with p mr region_end_ge[of i cmask N] show "p \<in> ?A" by auto
        qed
      qed
      with "1.IH"(1)[OF lt True refl inv] u show ?thesis by simp
    qed
  qed
qed

lemma conflict_regions_set:
  "set (conflict_regions cmask N) = {(s, e). max_run cmask N s e}"
  using scan_regions_set[of 0 cmask N "[]"] by (simp add: conflict_regions_def)

lemma scan_regions_cover:
  assumes "i \<le> k" "k < N" "cmask ! k"
  shows "\<exists>(s, e)\<in>set (scan_regions cmask N i acc). s \<le> k \<and> k \<le> e"
  using assms
proof (induction cmask N i acc rule: scan_regions.induct)
  case (1 cmask N i acc)
  from "1.prems" have lt: "i < N" by simp
  show ?case
  proof (cases "cmask ! i")
    case False
    with lt have u: "scan_regions cmask N i acc = scan_regions cmask N (i + 1) acc"
      by (subst scan_regions.simps) simp
    from False "1.prems" have "i + 1 \<le> k" by (cases "k = i") auto
    from "1.IH"(2)[OF lt False this "1.prems"(2,3)] u show ?thesis by simp
  next
    case True
    let ?j = "region_end cmask N i"
    from lt True have u: "scan_regions cmask N i acc = scan_regions cmask N (?j + 1) (acc @ [(i, ?j)])"
      by (subst scan_regions.simps) (simp add: Let_def)
    show ?thesis
    proof (cases "k \<le> ?j")
      case True
      have inv: "?j + 1 = 0 \<or> \<not> cmask ! (?j + 1 - 1) \<or> N \<le> ?j + 1 \<or> \<not> cmask ! (?j + 1)"
        using region_end_stop[of cmask N i] by auto
      have "(i, ?j) \<in> set (scan_regions cmask N (?j + 1) (acc @ [(i, ?j)]))"
        unfolding scan_regions_set[OF inv] by simp
      with u True "1.prems"(1) show ?thesis by auto
    next
      case False
      then have "?j + 1 \<le> k" by simp
      from "1.IH"(1)[OF lt True refl this "1.prems"(2,3)] u show ?thesis by simp
    qed
  qed
qed

lemma conflict_mask_nth:
  "i < N \<Longrightarrow> conflict_mask N lH lS ! i \<longleftrightarrow> lH ! i = CHR ''H'' \<and> lS ! i = CHR ''S''"
  by (simp add: conflict_mask_def)

lemma mark_overlap_nth:
  "i < N \<Longrightarrow> mark_overlap N lH lS ! i =
     (if lH ! i = CHR ''H'' then (if lS ! i = CHR ''S'' then CHR ''X'' else CHR ''H'')
      else (if lS ! i = CHR ''S'' then CHR ''S'' else CHR ''-''))"
  by (simp add: mark_overlap_def Let_def)

lemma length_mark_overlap: "length (mark_overlap N lH lS) = N"
  by (simp add: mark_overlap_def)

lemma fold_update:
  "length (fold (\<lambda>k fl. fl[k := c]) ks fl) = length fl
   \<and> (\<forall>k<length fl. fold (\<lambda>k fl. fl[k := c]) ks fl ! k = (if k \<in> set ks then c else fl ! k))"
proof (induction ks arbitrary: fl)
  case Nil
  then show ?case by simp
next
  case (Cons a ks)
  from Cons.IH[of "fl[a := c]"] show ?case by (auto simp: nth_list_update)
qed

lemma length_overwrite: "length (overwrite fl s e c) = length fl"
  by (simp add: overwrite_def fold_update)

lemma overwrite_nth:
  "k < length fl \<Longrightarrow> overwrite fl s e c ! k = (if s \<le> k \<and> k \<le> e then c else fl ! k)"
  using fold_update[of c "[s..<e + 1]" fl] by (auto simp: overwrite_def)

lemma length_resolve_loop: "length (resolve_loop f Pa Pb rs fl) = length fl"
  unfolding resolve_loop_def
  by (induction rs arbitrary: fl) (auto simp: length_overwrite)

lemma resolve_loop_snoc:
  "resolve_loop f Pa Pb (rs @ [(s, e)]) fl =
     overwrite (resolve_loop f Pa Pb rs fl) s e (fst (resolve_region f Pa Pb s e))"
  by (simp add: resolve_loop_def)

lemma resolve_loop_outside:
  assumes "k < length fl" "\<forall>(s, e)\<in>set rs. \<not> (s \<le> k \<and> k \<le> e)"
  shows "resolve_loop f Pa Pb rs fl ! k = fl ! k"
  using assms(2)
proof (induction rs rule: rev_induct)
  case Nil
  then show ?case by (simp add: resolve_loop_def)
next
  case (snoc r rs)
  obtain s e where r: "r = (s, e)" by (cases r)
  from snoc.prems r have out: "\<not> (s \<le> k \<and> k \<le> e)" and rest: "\<forall>(s, e)\<in>set rs. \<not> (s \<le> k \<and> k \<le> e)"
    by auto
  from assms(1) have "k < length (resolve_loop f Pa Pb rs fl)" by (simp add: length_resolve_loop)
  with out snoc.IH[OF rest] show ?case
    unfolding r resolve_loop_snoc by (auto simp: overwrite_nth)
qed

lemma resolve_loop_inside:
  assumes "k < length fl" "(s, e) \<in> set rs" "s \<le> k" "k \<le> e"
    and uniq: "\<forall>(s', e')\<in>set rs. s' \<le> k \<and> k \<le> e' \<longrightarrow> (s', e') = (s, e)"
  shows "resolve_loop f Pa Pb rs fl ! k = fst (resolve_region f Pa Pb s e)"
  using assms(2) uniq
proof (induction rs rule: rev_induct)
  case Nil
  then show ?case by simp
next
  case (snoc r rs)
  obtain s' e' where r: "r = (s', e')" by (cases r)
  from assms(1) have len: "k < length (resolve_loop f Pa Pb rs fl)" by (simp add: length_resolve_loop)
  show ?case
  proof (cases "s' \<le> k \<and> k \<le> e'")
    case True
    with snoc.prems(2) r have "(s', e') = (s, e)" by auto
    with True len show ?thesis unfolding r resolve_loop_snoc by (simp add: overwrite_nth)
  next
    case False
    with snoc.prems(1) r assms(3,4) have mem: "(s, e) \<in> set rs" by auto
    from snoc.prems(2) have "\<forall>(s', e')\<in>set rs. s' \<le> k \<and> k \<le> e' \<longrightarrow> (s', e') = (s, e)" by auto
    from snoc.IH[OF mem this] False len show ?thesis
      unfolding r resolve_loop_snoc by (auto simp: overwrite_nth)
  qed
qed

lemma max_run_same:
  assumes "max_run cmask N s e" "max_run cmask N s' e'" "s \<le> k" "k \<le> e" "s' \<le> k" "k \<le> e'"
  shows "(s', e') = (s, e)"
proof -
  have "s' = s"
  proof (rule ccontr)
    assume "s' \<noteq> s"
    then consider "s < s'" | "s' < s" by linarith
    then show False
    proof cases
      case 1
      from max_run_after[OF assms(2,1) 1] assms(4,5) show False by simp
    next
      case 2
      from max_run_after[OF assms(1,2) 2] assms(3,6) show False by simp
    qed
  qed
  with assms(1,2) max_run_unique_end[of cmask N s e e'] show ?thesis by simp
qed

lemma py_slice_nat:
  assumes "s \<le> e" "e < length P"
  shows "py_slice P (int s) (int e + 1) = map (\<lambda>k. P ! k) [s..<e + 1]"
proof -
  have "py_slice P (int s) (int e + 1) = take (Suc e - s) (drop s P)"
    using assms by (simp add: py_slice_def Let_def min_def nat_diff_distrib nat_add_distrib)
  also have "\<dots> = map (\<lambda>k. P ! k) [s..<Suc e]"
    using assms by (intro map_upt_eqI[symmetric]) simp_all
  finally show ?thesis by simp
qed

lemma length_resolved_labels: "length (resolved_labels f N Pa Pb lH lS) = N"
  by (simp add: resolved_labels_def length_resolve_loop length_mark_overlap)

lemma region_choice_cases:
  "fst (resolve_region f Pa Pb s e) = CHR ''S'' \<or> fst (resolve_region f Pa Pb s e) = CHR ''H''"
  by (simp add: resolve_region_def Let_def)

lemma resolved_labels_inside:
  assumes "(s, e) \<in> set (conflict_regions (conflict_mask N lH lS) N)" "s \<le> k" "k \<le> e"
  shows "resolved_labels f N Pa Pb lH lS ! k = fst (resolve_region f Pa Pb s e)"
proof -
  let ?rs = "conflict_regions (conflict_mask N lH lS) N"
  from assms(1) have mr: "max_run (conflict_mask N lH lS) N s e"
    by (simp add: conflict_regions_set)
  then have "e < N" by (simp add: max_run_iff)
  with assms(3) have k: "k < length (mark_overlap N lH lS)" by (simp add: length_mark_overlap)
  have uniq: "\<forall>(s', e')\<in>set ?rs. s' \<le> k \<and> k \<le> e' \<longrightarrow> (s', e') = (s, e)"
    using max_run_same[OF mr _ assms(2,3)] by (auto simp: conflict_regions_set)
  show ?thesis
    unfolding resolved_labels_def
    using k assms uniq by (rule resolve_loop_inside)
qed

lemma marker_covered:
  assumes "i < N" "mark_overlap N lH lS ! i = CHR ''X''"
  shows "\<exists>(s, e)\<in>set (conflict_regions (conflict_mask N lH lS) N). s \<le> i \<and> i \<le> e"
proof -
  from assms have "conflict_mask N lH lS ! i"
    by (simp add: mark_overlap_nth conflict_mask_nth split: if_splits)
  with assms(1) show ?thesis
    unfolding conflict_regions_def by (intro scan_regions_cover) simp_all
qed

lemma resolved_labels_nth:
  assumes "i < N"
  shows "resolved_labels f N Pa Pb lH lS ! i \<in> {CHR ''-'', CHR ''H'', CHR ''S''}"
proof (cases "\<exists>(s, e)\<in>set (conflict_regions (conflict_mask N lH lS) N). s \<le> i \<and> i \<le> e")
  case True
  then obtain s e where "(s, e) \<in> set (conflict_regions (conflict_mask N lH lS) N)" "s \<le> i" "i \<le> e"
    by auto
  from resolved_labels_inside[OF this, of f Pa Pb] region_choice_cases[of f Pa Pb s e] show ?thesis by auto
next
  case False
  then have out: "\<forall>(s, e)\<in>set (conflict_regions (conflict_mask N lH lS) N). \<not> (s \<le> i \<and> i \<le> e)"
    by auto
  from assms have "i < length (mark_overlap N lH lS)" by (simp add: length_mark_overlap)
  from resolve_loop_outside[OF this out]
  have eq: "resolved_labels f N Pa Pb lH lS ! i = mark_overlap N lH lS ! i"
    by (simp add: resolved_labels_def)
  from False marker_covered[OF assms] have "mark_overlap N lH lS ! i \<noteq> CHR ''X''" by blast
  with assms eq show ?thesis by (simp add: mark_overlap_nth split: if_splits)
qed

lemma resolved_labels_clean:
  "set (resolved_labels f N Pa Pb lH lS) \<subseteq> {CHR ''-'', CHR ''H'', CHR ''S''}"
proof
  fix c assume "c \<in> set (resolved_labels f N Pa Pb lH lS)"
  then obtain i where "i < N" "resolved_labels f N Pa Pb lH lS ! i = c"
    by (auto simp: in_set_conv_nth length_resolved_labels)
  with resolved_labels_nth[of i N f Pa Pb lH lS] show "c \<in> {CHR ''-'', CHR ''H'', CHR ''S''}"
    by simp
qed

text \<open>
  C5. For label arrays of length \<open>N\<close>, after the loop over the Conflict Regions no conflict
  marker \<open>X\<close> is left in the final labels: they hold only unassigned, helix and strand, the
  cleanup loop that follows changes nothing, and every index that the first pass marked
  \<open>X\<close> lies inside one of the Conflict Regions.
\<close>

theorem no_conflict_marker_survives:
  assumes "length labels_H = N" "length labels_S = N"
  shows "CHR ''X'' \<notin> set (resolved_labels f N Pa Pb labels_H labels_S)
         \<and> set (resolved_labels f N Pa Pb labels_H labels_S) \<subseteq> {CHR ''-'', CHR ''H'', CHR ''S''}
         \<and> final_labels f N Pa Pb labels_H labels_S = resolved_labels f N Pa Pb labels_H labels_S
         \<and> list_all (\<lambda>i. mark_overlap N labels_H labels_S ! i = CHR ''X'' \<longrightarrow>
               list_ex (\<lambda>(s, e). s \<le> i \<and> i \<le> e) (conflict_regions (conflict_mask N labels_H labels_S) N))
             [0..<N]"
proof -
  let ?fl = "resolved_labels f N Pa Pb labels_H labels_S"
  note sub = resolved_labels_clean[of f N Pa Pb labels_H labels_S]
  then have nx: "CHR ''X'' \<notin> set ?fl" by auto
  then have "clean_residual ?fl = ?fl"
    unfolding clean_residual_def by (intro map_idI) auto
  then have fin: "final_labels f N Pa Pb labels_H labels_S = ?fl" by (simp add: final_labels_def)
  have cov: "list_all (\<lambda>i. mark_overlap N labels_H labels_S ! i = CHR ''X'' \<longrightarrow>
               list_ex (\<lambda>(s, e). s \<le> i \<and> i \<le> e) (conflict_regions (conflict_mask N labels_H labels_S) N))
             [0..<N]"
    unfolding list_all_iff list_ex_iff using marker_covered[of _ N labels_H labels_S] by auto
  from nx sub fin cov show ?thesis by blast
qed

lemma mean_region:
  assumes "s \<le> e" "e < length P"
  shows "py_sum (py_slice P (int s) (int e + 1)) / f (int e - int s + 1) = mean_over f P s e"
proof -
  have "int e - int s + 1 = int (e - s + 1)" using assms(1) by simp
  then show ?thesis by (simp only: mean_over_def py_slice_nat[OF assms])
qed

text \<open>
  C3. For label and propensity arrays of length \<open>N\<close>, the Conflict Regions found by the scan
  are exactly the maximal runs of residues labelled both helix and strand. For every such
  run \<open>[s, e]\<close>: the Resolver's averages are the means of the helix and of the strand
  propensities over the indices \<open>s..e\<close> (their sum from the left, divided by their number,
  in the arithmetic of the floats, whatever it is); the chosen label is strand if the
  strand mean is strictly greater and helix otherwise, also when the two are equal; and
  every final label in \<open>[s, e]\<close> is the chosen label, after the loop over the regions and
  in the final output.
\<close>

theorem conflict_region_resolved:
  assumes "length labels_H = N" "length labels_S = N" "length Pa = N" "length Pb = N"
    and "max_run (conflict_mask N labels_H labels_S) N s e"
    and "s \<le> k" "k \<le> e"
  shows "set (conflict_regions (conflict_mask N labels_H labels_S) N) =
           {(s, e). max_run (conflict_mask N labels_H labels_S) N s e}
         \<and> (s, e) \<in> set (conflict_regions (conflict_mask N labels_H labels_S) N)
         \<and> labels_H ! k = CHR ''H'' \<and> labels_S ! k = CHR ''S''
         \<and> resolve_region f Pa Pb s e =
             (if mean_over f Pb s e > mean_over f Pa s e then CHR ''S'' else CHR ''H'',
              mean_over f Pa s e, mean_over f Pb s e)
         \<and> (s, e, resolve_region f Pa Pb s e)
             \<in> set (resolved_choices f Pa Pb (conflict_regions (conflict_mask N labels_H labels_S) N))
         \<and> resolved_labels f N Pa Pb labels_H labels_S ! k =
             (if mean_over f Pb s e > mean_over f Pa s e then CHR ''S'' else CHR ''H'')
         \<and> final_labels f N Pa Pb labels_H labels_S ! k =
             (if mean_over f Pb s e > mean_over f Pa s e then CHR ''S'' else CHR ''H'')"
proof -
  let ?rs = "conflict_regions (conflict_mask N labels_H labels_S) N"
  let ?c = "if mean_over f Pb s e > mean_over f Pa s e then CHR ''S'' else CHR ''H''"
  note mr = assms(5)
  have all: "set ?rs = {(s, e). max_run (conflict_mask N labels_H labels_S) N s e}"
    by (rule conflict_regions_set)
  with mr have mem: "(s, e) \<in> set ?rs" by simp
  from mr have se: "s \<le> e" "e < N" and run: "conflict_mask N labels_H labels_S ! k"
    using assms(6,7) unfolding max_run_iff by blast+
  from se assms(7) have kN: "k < N" by simp
  with run have lab: "labels_H ! k = CHR ''H''" "labels_S ! k = CHR ''S''"
    by (simp_all add: conflict_mask_nth)
  have ma: "py_sum (py_slice Pa (int s) (int e + 1)) / f (int e - int s + 1) = mean_over f Pa s e"
    using se assms(3) by (intro mean_region) simp_all
  have mb: "py_sum (py_slice Pb (int s) (int e + 1)) / f (int e - int s + 1) = mean_over f Pb s e"
    using se assms(4) by (intro mean_region) simp_all
  have rr: "resolve_region f Pa Pb s e = (?c, mean_over f Pa s e, mean_over f Pb s e)"
    by (simp only: resolve_region_def Let_def ma mb)
  have ch: "(s, e, resolve_region f Pa Pb s e) \<in> set (resolved_choices f Pa Pb ?rs)"
    using mem by (force simp: resolved_choices_def)
  have rl: "resolved_labels f N Pa Pb labels_H labels_S ! k = ?c"
    using resolved_labels_inside[OF mem assms(6,7), of f Pa Pb] rr by simp
  have "CHR ''X'' \<notin> set (resolved_labels f N Pa Pb labels_H labels_S)"
    using resolved_labels_clean[of f N Pa Pb labels_H labels_S] by auto
  then have "clean_residual (resolved_labels f N Pa Pb labels_H labels_S) =
             resolved_labels f N Pa Pb labels_H labels_S"
    unfolding clean_residual_def by (intro map_idI) auto
  with rl have fl: "final_labels f N Pa Pb labels_H labels_S ! k = ?c"
    by (simp add: final_labels_def)
  from all mem lab rr ch rl fl show ?thesis by blast
qed

lemma ex_regions:
  "conflict_regions (conflict_mask 4 ''HHH-'' ''-SS-'') 4 = [(1, 2)]"
  by code_simp

lemma ex_max_run:
  "max_run (conflict_mask 4 ''HHH-'' ''-SS-'') 4 1 2"
  by code_simp

lemma ex_resolved:
  "resolved_labels of_int 4 [1, 1, 1, 1 :: rat] [2, 2, 2, 2] ''HHH-'' ''-SS-'' = ''HSS-''"
  by code_simp

theorem no_conflict_marker_survives_witness:
  "length ''HHH-'' = 4 \<and> length ''-SS-'' = 4
   \<and> mark_overlap 4 ''HHH-'' ''-SS-'' = ''HXX-''
   \<and> resolved_labels of_int 4 [1, 1, 1, 1 :: rat] [2, 2, 2, 2] ''HHH-'' ''-SS-'' = ''HSS-''
   \<and> CHR ''X'' \<notin> set (resolved_labels of_int 4 [1, 1, 1, 1 :: rat] [2, 2, 2, 2] ''HHH-'' ''-SS-'')"
proof -
  have h: "length ''HHH-'' = 4" "length ''-SS-'' = 4" by simp_all
  have m: "mark_overlap 4 ''HHH-'' ''-SS-'' = ''HXX-''" by code_simp
  from no_conflict_marker_survives[OF h,
      where f = of_int and Pa = "[1, 1, 1, 1 :: rat]" and Pb = "[2, 2, 2, 2]", THEN conjunct1]
    h m ex_resolved
  show ?thesis by (intro conjI)
qed

theorem conflict_region_resolved_witness:
  "length ''HHH-'' = 4 \<and> length ''-SS-'' = 4
   \<and> length [1, 1, 1, 1 :: rat] = 4 \<and> length [2, 2, 2, 2 :: rat] = 4
   \<and> max_run (conflict_mask 4 ''HHH-'' ''-SS-'') 4 1 2
   \<and> (1::nat) \<le> 1 \<and> (1::nat) \<le> 2
   \<and> (1, 2) \<in> set (conflict_regions (conflict_mask 4 ''HHH-'' ''-SS-'') 4)
   \<and> final_labels of_int 4 [1, 1, 1, 1 :: rat] [2, 2, 2, 2] ''HHH-'' ''-SS-'' ! 1 =
       (if mean_over of_int [2, 2, 2, 2 :: rat] 1 2 > mean_over of_int [1, 1, 1, 1 :: rat] 1 2
        then CHR ''S'' else CHR ''H'')"
proof -
  have l: "length ''HHH-'' = 4" "length ''-SS-'' = 4"
    "length [1, 1, 1, 1 :: rat] = 4" "length [2, 2, 2, 2 :: rat] = 4"
    by simp_all
  have o: "(1::nat) \<le> 1" "(1::nat) \<le> 2" by simp_all
  note h = l ex_max_run o
  from conflict_region_resolved[OF h, where f = of_int] have
    "(1, 2) \<in> set (conflict_regions (conflict_mask 4 ''HHH-'' ''-SS-'') 4)"
    "final_labels of_int 4 [1, 1, 1, 1 :: rat] [2, 2, 2, 2] ''HHH-'' ''-SS-'' ! 1 =
       (if mean_over of_int [2, 2, 2, 2 :: rat] 1 2 > mean_over of_int [1, 1, 1, 1 :: rat] 1 2
        then CHR ''S'' else CHR ''H'')"
    by blast+
  with h show ?thesis by (intro conjI)
qed

lemma tie_goes_to_helix:
  "final_labels of_int 4 [1, 1, 1, 1 :: rat] [1, 1, 1, 1] ''HHH-'' ''-SS-'' = ''HHH-''"
  by code_simp

section \<open>The strand threshold\<close>



















end
